theory Spec2Isabelle
  imports Main "HOL-Library.Multiset"
begin

section \<open>Strings and arrays of the host language\<close>

text \<open>
  A JavaScript string is modelled as a \<open>string\<close>: each \<open>char\<close> stands for one UTF-16 code
  unit below 256, so the development speaks about strings of that range.  A slot of an
  array that may hold \<open>null\<close> is an \<open>option\<close>.
\<close>

text \<open>\<open>String.prototype.split\<close> with a one-character separator: the result is never
  empty, and the empty string splits into one empty piece.\<close>

fun split :: "char \<Rightarrow> string \<Rightarrow> string list" where
  "split sep [] = [[]]"
| "split sep (c # cs) =
     (if c = sep then [] # split sep cs
      else (case split sep cs of
              [] \<Rightarrow> [[c]]
            | s # ss \<Rightarrow> (c # s) # ss))"

text \<open>\<open>Array.prototype.join\<close> on an array of strings.\<close>

fun join :: "string \<Rightarrow> string list \<Rightarrow> string" where
  "join sep [] = []"
| "join sep [s] = s"
| "join sep (s # t # ss) = s @ sep @ join sep (t # ss)"

text \<open>\<open>Boolean(s)\<close> for a slot holding a string or \<open>null\<close>: \<open>null\<close> and the empty
  string are falsy.\<close>

fun truthy :: "string option \<Rightarrow> bool" where
  "truthy None = False"
| "truthy (Some s) = (s \<noteq> [])"

text \<open>\<open>Array.prototype.findLastIndex\<close>: the callback receives the element and its index;
  the scan runs from the last index down and the answer is \<open>-1\<close> when nothing is found.\<close>

fun findLastIndexFrom :: "('a \<Rightarrow> nat \<Rightarrow> bool) \<Rightarrow> 'a list \<Rightarrow> nat \<Rightarrow> int" where
  "findLastIndexFrom P xs 0 = - 1"
| "findLastIndexFrom P xs (Suc k) =
     (if P (xs ! k) k then int k else findLastIndexFrom P xs k)"

definition findLastIndex :: "('a \<Rightarrow> nat \<Rightarrow> bool) \<Rightarrow> 'a list \<Rightarrow> int" where
  "findLastIndex P xs = findLastIndexFrom P xs (length xs)"

section \<open>Path resolution\<close>

text \<open>\<open>createPath\<close>: \<open>segments.filter(Boolean).join('/')\<close>.\<close>

definition createPath :: "string option list \<Rightarrow> string" where
  "createPath segments = join ''/'' (map the (filter truthy segments))"

text \<open>
  One call of the callback that \<open>resolvePath\<close> hands to \<open>forEach\<close>.  The state is the
  array \<open>segments\<close>, mutated in place by the source, and the flag \<open>nameFound\<close>.  The
  callback's argument \<open>segment\<close> is the slot as it is when the index is visited.
\<close>

definition resolveStep :: "nat \<Rightarrow> string option list \<times> bool \<Rightarrow> string option list \<times> bool" where
  "resolveStep index st =
     (let segments = fst st; nameFound = snd st; segment = segments ! index in
      if segment = Some ''.'' \<or> segment = Some ''..'' then
        (if nameFound then
           (let segments1 = segments[index := None] in
            if segment = Some ''..'' then
              (let lastIndex = findLastIndex (\<lambda>s i. truthy s \<and> i < index) segments1 in
               if lastIndex > - 1 then (segments1[nat lastIndex := None], nameFound)
               else (segments1, nameFound))
            else (segments1, nameFound))
         else (segments, nameFound))
      else (segments, True))"

text \<open>\<open>segments.forEach(...)\<close>: the indices \<open>0 .. length - 1\<close> in order (the array keeps
  its length).\<close>

definition resolveLoop :: "string option list \<Rightarrow> string option list \<times> bool" where
  "resolveLoop segments = fold resolveStep [0..<length segments] (segments, False)"

definition resolvePath :: "string \<Rightarrow> string" where
  "resolvePath path = createPath (fst (resolveLoop (map Some (split CHR ''/'' path))))"

text \<open>A segment that is \<open>.\<close> or \<open>..\<close>, the test \<open>segment === '.' || segment === '..'\<close>.\<close>

definition isDot :: "string \<Rightarrow> bool" where
  "isDot s = (s = ''.'' \<or> s = ''..'')"

text \<open>
  What holds of the state of the loop before index \<open>k\<close> is visited, when the array started
  as the segments \<open>xs\<close>: the array has kept its length; the slots from \<open>k\<close> on are
  untouched; every slot is \<open>null\<close> or still holds its segment; \<open>nameFound\<close> says whether
  a segment other than \<open>.\<close> and \<open>..\<close> came before \<open>k\<close>; a dot segment before \<open>k\<close> that has
  such a segment before it is \<open>null\<close>; and if there was no such dot segment, nothing has
  changed.
\<close>

definition resolveInv :: "string list \<Rightarrow> nat \<Rightarrow> string option list \<times> bool \<Rightarrow> bool" where
  "resolveInv xs k st =
     (length (fst st) = length xs
      \<and> (\<forall>i. k \<le> i \<and> i < length xs \<longrightarrow> fst st ! i = Some (xs ! i))
      \<and> (\<forall>i<length xs. fst st ! i = None \<or> fst st ! i = Some (xs ! i))
      \<and> snd st = (\<exists>j<k. \<not> isDot (xs ! j))
      \<and> (\<forall>i<k. isDot (xs ! i) \<and> (\<exists>j<i. \<not> isDot (xs ! j)) \<longrightarrow> fst st ! i = None)
      \<and> ((\<forall>i<k. isDot (xs ! i) \<longrightarrow> (\<forall>j<i. isDot (xs ! j))) \<longrightarrow> fst st = map Some xs))"

section \<open>Renaming on a name collision\<close>

text \<open>
  What a call can end in besides a value.  \<open>TypeError\<close> is the exception the engine
  throws when a property of \<open>undefined\<close> is read.  \<open>OutsideModel\<close> marks the inputs on
  which the source's result depends on floating-point rounding or on the engine's sorting
  algorithm; nothing is claimed about them.
\<close>

datatype failure = TypeError | OutsideModel

text \<open>Character classes of the two regular expressions, for code units below 256:
  the line terminators that \<open>.\<close> refuses, \<open>[a-zA-Z0-9]\<close> and \<open>\d\<close>.\<close>

definition isLineTerminator :: "char \<Rightarrow> bool" where
  "isLineTerminator c = (c = CHR 0x0A \<or> c = CHR 0x0D)"

definition isAlnum :: "char \<Rightarrow> bool" where
  "isAlnum c =
     (c \<in> set ''abcdefghijklmnopqrstuvwxyzABCDEFGHIJKLMNOPQRSTUVWXYZ0123456789'')"

definition isDigit :: "char \<Rightarrow> bool" where
  "isDigit c = (c \<in> set ''0123456789'')"

text \<open>
  \<open>name.match(/(.+?)(?:\.([a-zA-Z0-9]+?))?$/)\<close>.  The pattern is not anchored on the left,
  so the engine tries the start positions from left to right.  At one start position the
  lazy \<open>(.+?)\<close> takes one character that is no line terminator and then asks whether the
  rest of the pattern matches what follows; if not it takes one more character.

  \<open>extensionAt rest\<close> is the rest of the pattern, \<open>(?:\.([a-zA-Z0-9]+?))?$\<close>, tried on
  the remaining input: because of \<open>$\<close> it succeeds only when the remainder is a dot
  followed by one or more alphanumerics (the second group captures them) or when the
  remainder is empty (the group is skipped and captures nothing).
\<close>

definition extensionAt :: "string \<Rightarrow> string option option" where
  "extensionAt rest =
     (case rest of
        [] \<Rightarrow> Some None
      | c # ext \<Rightarrow>
          if c = CHR ''.'' \<and> ext \<noteq> [] \<and> list_all isAlnum ext then Some (Some ext)
          else None)"

fun slugScan :: "string \<Rightarrow> string \<Rightarrow> (string \<times> string option) option" where
  "slugScan slug [] = None"
| "slugScan slug (c # cs) =
     (if isLineTerminator c then None
      else (case extensionAt cs of
              Some extension \<Rightarrow> Some (slug @ [c], extension)
            | None \<Rightarrow> slugScan (slug @ [c]) cs))"

fun nameMatch :: "string \<Rightarrow> (string \<times> string option) option" where
  "nameMatch [] = None"
| "nameMatch (c # cs) =
     (case slugScan [] (c # cs) of
        Some m \<Rightarrow> Some m
      | None \<Rightarrow> nameMatch cs)"

text \<open>
  \<open>p.match(regex)\<close> for the expression built from \<open>slug\<close> and \<open>extension\<close>:
  \<open>^slug(?:-(\d+?))?\.extension$\<close>, the last part present only when there is an
  extension.  \<open>escapeRegExp\<close> puts a backslash before every character that has a meaning
  in a pattern, so \<open>slug\<close> matches itself and nothing else; the extension is alphanumeric.
  The result is \<open>None\<close> for no match and otherwise the first capture group, which is
  \<open>None\<close> when the optional group took no part.
\<close>

definition variantMatch :: "string \<Rightarrow> string option \<Rightarrow> string \<Rightarrow> string option option" where
  "variantMatch slug extension p =
     (let suffix = (case extension of None \<Rightarrow> [] | Some e \<Rightarrow> CHR ''.'' # e);
          rest = drop (length slug) p
      in if take (length slug) p \<noteq> slug then None
         else (case rest of
                 [] \<Rightarrow> (if suffix = [] then Some None else None)
               | c # r \<Rightarrow>
                   if c = CHR ''-'' \<and> takeWhile isDigit r \<noteq> [] \<and> dropWhile isDigit r = suffix
                   then Some (Some (takeWhile isDigit r))
                   else if rest = suffix then Some None
                   else None))"

text \<open>\<open>Number(digits)\<close> on a string of decimal digits and the decimal text of a
  number, as the template literal prints it.  Both are exact up to \<open>2 ^ 53 = 9007199254740992\<close>.\<close>

definition digitValue :: "char \<Rightarrow> nat" where
  "digitValue c = of_char c - 48"

definition Number :: "string \<Rightarrow> nat" where
  "Number digits = fold (\<lambda>c n. 10 * n + digitValue c) digits 0"

fun numberToString :: "nat \<Rightarrow> string" where
  "numberToString n =
     (if n < 10 then [''0123456789'' ! n]
      else numberToString (n div 10) @ [''0123456789'' ! (n mod 10)])"

declare numberToString.simps [simp del]

text \<open>
  \<open>Array.prototype.sort\<close> with a comparison function.  The language requires the sort
  to be stable and to put \<open>a\<close> before \<open>b\<close> when the function is negative on them; for a
  consistent function the sorted array is then unique, and insertion from the right
  computes it.  The array is sorted in place: the caller's array holds the result.
\<close>

fun insertBy :: "('a \<Rightarrow> 'a \<Rightarrow> int) \<Rightarrow> 'a \<Rightarrow> 'a list \<Rightarrow> 'a list" where
  "insertBy compare x [] = [x]"
| "insertBy compare x (y # ys) =
     (if compare x y \<le> 0 then x # y # ys else y # insertBy compare x ys)"

definition sortBy :: "('a \<Rightarrow> 'a \<Rightarrow> int) \<Rightarrow> 'a list \<Rightarrow> 'a list" where
  "sortBy compare xs = foldr (insertBy compare) xs []"

text \<open>\<open>Array.prototype.findLast\<close>.\<close>

definition findLast :: "('a \<Rightarrow> bool) \<Rightarrow> 'a list \<Rightarrow> 'a option" where
  "findLast P xs = find P (rev xs)"

text \<open>\<open>a.split('.')[0]\<close>, the key the other names are sorted by.\<close>

definition firstPart :: "string \<Rightarrow> string" where
  "firstPart a = (case split CHR ''.'' a of [] \<Rightarrow> [] | s # _ \<Rightarrow> s)"

text \<open>
  \<open>renameIfNeeded\<close>.  \<open>String.prototype.localeCompare\<close> belongs to the host and depends on
  its locale, so it is the parameter \<open>localeCompare\<close>.  The result is a pair: what the
  call returns or throws, and the array \<open>otherNames\<close> as the call leaves it.

  When the name does not match, \<open>?? []\<close> makes \<open>slug\<close> undefined, and
  \<open>escapeRegExp(slug)\<close> then calls \<open>replace\<close> on it.
\<close>

definition renameIfNeeded ::
  "(string \<Rightarrow> string \<Rightarrow> int) \<Rightarrow> string \<Rightarrow> string list \<Rightarrow> (failure + string) \<times> string list" where
  "renameIfNeeded localeCompare name otherNames =
     (if otherNames = [] then (Inr name, otherNames)
      else (case nameMatch name of
              None \<Rightarrow> (Inl TypeError, otherNames)
            | Some (slug, extension) \<Rightarrow>
                (let sorted = sortBy (\<lambda>a b. localeCompare (firstPart a) (firstPart b)) otherNames;
                     dupName = findLast (\<lambda>p. variantMatch slug extension p \<noteq> None) sorted
                 in case dupName of
                      None \<Rightarrow> (Inr name, sorted)
                    | Some dup \<Rightarrow>
                        if dup = [] then (Inr name, sorted)
                        else (let number =
                                    (case variantMatch slug extension dup of
                                       Some (Some digits) \<Rightarrow> Number digits
                                     | _ \<Rightarrow> 0) + 1
                              in if 9007199254740992 < number then (Inl OutsideModel, sorted)
                                 else (Inr (slug @ ''-'' @ numberToString number
                                            @ (case extension of
                                                 None \<Rightarrow> []
                                               | Some e \<Rightarrow> ''.'' @ e)),
                                       sorted)))))"

text \<open>A collation to run the examples with: the order of the code units.  It puts a
  string before each of its proper extensions, as the collations of the host do.\<close>

fun codeUnitCompare :: "string \<Rightarrow> string \<Rightarrow> int" where
  "codeUnitCompare [] [] = 0"
| "codeUnitCompare [] (y # ys) = - 1"
| "codeUnitCompare (x # xs) [] = 1"
| "codeUnitCompare (x # xs) (y # ys) =
     (if x = y then codeUnitCompare xs ys
      else if (of_char x :: nat) < of_char y then - 1 else 1)"

section \<open>Scanning a drop payload\<close>

text \<open>A \<open>File\<close> object, with the two properties the scan reads.\<close>

record File =
  file_name :: string
  file_type :: string

text \<open>
  A \<open>FileSystemEntry\<close> of the host.  A file entry has a name and what \<open>entry.file(...)\<close>
  does: \<open>Some t\<close> when the success callback receives the \<open>File\<close> of that name with
  declared type \<open>t\<close>, \<open>None\<close> when the error callback is called.  A directory entry has a
  name and what its reader delivers on the successive calls of \<open>readEntries\<close>: \<open>Some\<close> batch
  of entries, or \<open>None\<close> when the call reports an error; once the list is used up each
  further call delivers the empty batch, the host's sign that nothing is left.
\<close>

datatype entry =
    FileEntry string "string option"
  | DirectoryEntry string "entry list option list"

text \<open>What a promise of \<open>readEntry\<close> resolves to: \<open>null\<close>, a file, or an array of such
  values.\<close>

datatype result = Null | AFile File | Arr "result list"

text \<open>\<open>String.prototype.startsWith\<close>.\<close>

definition startsWith :: "string \<Rightarrow> string \<Rightarrow> bool" where
  "startsWith s prefix = (take (length prefix) s = prefix)"

text \<open>White space and line terminators below 256, what \<open>trim\<close> strips and \<open>\s\<close>
  matches.\<close>

definition isSpace :: "char \<Rightarrow> bool" where
  "isSpace c =
     (c \<in> set [CHR 0x09, CHR 0x0A, CHR 0x0B, CHR 0x0C, CHR 0x0D, CHR 0x20, CHR 0xA0])"

definition trim :: "string \<Rightarrow> string" where
  "trim s = rev (dropWhile isSpace (rev (dropWhile isSpace s)))"

text \<open>\<open>split(/,\s*/g)\<close>: a separator is a comma with all the white space after it.\<close>

function splitAccept :: "string \<Rightarrow> string list" where
  "splitAccept [] = [[]]"
| "splitAccept (c # cs) =
     (if c = CHR '','' then [] # splitAccept (dropWhile isSpace cs)
      else (case splitAccept cs of
              [] \<Rightarrow> [[c]]
            | s # ss \<Rightarrow> (c # s) # ss))"
  by pat_completeness auto
termination
  by (relation "measure length") (auto simp: less_Suc_eq_le length_dropWhile_le)

text \<open>\<open>accept ? accept.trim().split(/,\s*/g) : []\<close>; the option is \<open>None\<close> when no
  \<open>accept\<close> is given, and the empty string is falsy.\<close>

definition fileTypesOf :: "string option \<Rightarrow> string list" where
  "fileTypesOf accept =
     (case accept of
        None \<Rightarrow> []
      | Some a \<Rightarrow> if a = [] then [] else splitAccept (trim a))"

text \<open>The parts of \<open>const [type, subtype] = mimeType.split('/')\<close>; the second is
  undefined when there is no slash.\<close>

definition typeOf :: "string \<Rightarrow> string" where
  "typeOf mimeType = (case split CHR ''/'' mimeType of [] \<Rightarrow> [] | t # _ \<Rightarrow> t)"

definition subtypeOf :: "string \<Rightarrow> string option" where
  "subtypeOf mimeType = (case split CHR ''/'' mimeType of _ # u # _ \<Rightarrow> Some u | _ \<Rightarrow> None)"

text \<open>The test \<open>isValidType\<close> on the declared type of a file.\<close>

definition isValidType :: "string list \<Rightarrow> string \<Rightarrow> bool" where
  "isValidType fileTypes ftype =
     (fileTypes = [] \<or>
      list_ex (\<lambda>mimeType.
                 if subtypeOf mimeType = Some ''*'' then typeOf ftype = typeOf mimeType
                 else ftype = mimeType) fileTypes)"

text \<open>
  \<open>Promise.all\<close> on promises that never reject: it resolves to the array of their values,
  in the order of the promises, once all have resolved.  A promise that never settles is
  \<open>None\<close>, and then the combined promise never settles either.
\<close>

fun promiseAll :: "'a option list \<Rightarrow> 'a list option" where
  "promiseAll [] = Some []"
| "promiseAll (p # ps) =
     (case p of
        None \<Rightarrow> None
      | Some v \<Rightarrow> (case promiseAll ps of None \<Rightarrow> None | Some vs \<Rightarrow> Some (v # vs)))"

text \<open>The one call \<open>createReader().readEntries(...)\<close> that \<open>readEntry\<close> makes: it gets
  what the reader delivers first.\<close>

fun firstBatch :: "'a list option list \<Rightarrow> 'a list option" where
  "firstBatch [] = Some []"
| "firstBatch (batch # later) = batch"

text \<open>
  \<open>readEntry\<close>: the promise resolves to \<open>null\<close> for a hidden entry, a rejected file or a
  file that cannot be read, to the file for an accepted one, and to the array of the
  children's values for a directory.  \<open>readEntries\<close> is given no error callback, so when
  the host reports an error nothing resolves the promise.
\<close>

function readEntry :: "string list \<Rightarrow> entry \<Rightarrow> result option" where
  "readEntry fileTypes (FileEntry nm content) =
     (if startsWith nm ''.'' then Some Null
      else (case content of
              Some ftype \<Rightarrow>
                Some (if isValidType fileTypes ftype
                      then AFile \<lparr>file_name = nm, file_type = ftype\<rparr> else Null)
            | None \<Rightarrow> Some Null))"
| "readEntry fileTypes (DirectoryEntry nm reads) =
     (if startsWith nm ''.'' then Some Null
      else (case firstBatch reads of
              Some entries \<Rightarrow>
                (case promiseAll (map (readEntry fileTypes) entries) of
                   Some values \<Rightarrow> Some (Arr values)
                 | None \<Rightarrow> None)
            | None \<Rightarrow> None))"
  by pat_completeness auto
termination
proof (relation "measure (\<lambda>(fileTypes, e). size e)")
  show "wf (measure (\<lambda>(fileTypes, e). size e))" by simp
next
  fix fileTypes :: "string list" and nm reads and entries :: "entry list" and e
  assume first: "firstBatch reads = Some entries" and "e \<in> set entries"
  then have "size e \<le> size_list size entries"
    by (simp add: size_list_estimation')
  with first have "size e < size (DirectoryEntry nm reads)"
    by (cases reads) auto
  then show "((fileTypes, e), (fileTypes, DirectoryEntry nm reads))
             \<in> measure (\<lambda>(fileTypes, e). size e)" by simp
qed

text \<open>
  \<open>Array.prototype.flat(depth)\<close>.  The engine flattens by recursion on its call stack and
  throws a \<open>RangeError\<close> when the arrays are nested deeper than the stack allows, a depth
  that depends on the engine and can lie below 100000.  The function here has no such
  limit: it goes on where the engine gives up.  So a run that returns a list in the engine
  returns the same list here, but not the other way round, and what is stated below
  about the list of a scan is stated for a run that returns one.
\<close>

fun flat :: "nat \<Rightarrow> result list \<Rightarrow> result list" where
  "flat depth [] = []"
| "flat depth (Arr ys # xs) =
     (if depth = 0 then Arr ys # flat depth xs else flat (depth - 1) ys @ flat depth xs)"
| "flat depth (Null # xs) = Null # flat depth xs"
| "flat depth (AFile f # xs) = AFile f # flat depth xs"

text \<open>\<open>filter(Boolean)\<close> on such values: only \<open>null\<close> is falsy.\<close>

fun isNull :: "result \<Rightarrow> bool" where
  "isNull Null = True"
| "isNull (AFile f) = False"
| "isNull (Arr xs) = False"

fun isFile :: "result \<Rightarrow> bool" where
  "isFile (AFile f) = True"
| "isFile Null = False"
| "isFile (Arr xs) = False"

fun filesOf :: "result list \<Rightarrow> File list" where
  "filesOf [] = []"
| "filesOf (AFile f # xs) = f # filesOf xs"
| "filesOf (Null # xs) = filesOf xs"
| "filesOf (Arr ys # xs) = filesOf xs"

text \<open>
  \<open>scanFiles\<close>.  An item is \<open>None\<close> when \<open>webkitGetAsEntry()\<close> returns \<open>null\<close>, and
  \<open>readItem\<close> is the function mapped over the items.  The result is \<open>None\<close> when the
  promise never settles.  When arrays are left after \<open>flat(100000)\<close>, the comparison
  function reads the \<open>name\<close> of an array, and what happens depends on the calls the
  engine's sort makes: that case is \<open>OutsideModel\<close>.
\<close>

definition readItem :: "string list \<Rightarrow> entry option \<Rightarrow> result option" where
  "readItem fileTypes item =
     (case item of
        None \<Rightarrow> Some Null
      | Some entry \<Rightarrow> readEntry fileTypes entry)"

definition scanFiles ::
  "(string \<Rightarrow> string \<Rightarrow> int) \<Rightarrow> entry option list \<Rightarrow> string option \<Rightarrow> (failure + File list) option" where
  "scanFiles localeCompare items accept =
     (let fileTypes = fileTypesOf accept in
      case promiseAll (map (readItem fileTypes) items) of
        None \<Rightarrow> None
      | Some values \<Rightarrow>
          (let kept = filter (\<lambda>v. \<not> isNull v) (flat 100000 values) in
           if list_all isFile kept
           then Some (Inr (sortBy (\<lambda>a b. localeCompare (file_name a) (file_name b))
                                  (filesOf kept)))
           else Some (Inl OutsideModel)))"

section \<open>What the scan is expected to deliver\<close>

text \<open>The files in a value of \<open>readEntry\<close>, from left to right, and how deep its arrays
  are nested.\<close>

fun leaves :: "result \<Rightarrow> File list" where
  "leaves Null = []"
| "leaves (AFile f) = [f]"
| "leaves (Arr vs) = concat (map leaves vs)"

fun arrayDepth :: "result \<Rightarrow> nat" where
  "arrayDepth Null = 0"
| "arrayDepth (AFile f) = 0"
| "arrayDepth (Arr vs) = Suc (foldr max (map arrayDepth vs) 0)"

text \<open>The entries among the items of a payload.\<close>

definition entriesOf :: "entry option list \<Rightarrow> entry list" where
  "entriesOf items = concat (map (\<lambda>item. case item of None \<Rightarrow> [] | Some e \<Rightarrow> [e]) items)"

text \<open>
  The files that lie in the first batch of a directory, of its subdirectories' first
  batches and so on, that can be read and whose type is accepted, none of them hidden or
  below a hidden directory; the subtree is \<open>readable\<close> when the first \<open>readEntries\<close> call
  of every directory that is reached succeeds; \<open>nesting\<close> counts the levels of
  directories along first batches.  The last two say when the scan as modelled here
  returns a list.
\<close>

fun firstBatchFiles :: "string list \<Rightarrow> entry \<Rightarrow> File list" where
  "firstBatchFiles fileTypes (FileEntry nm None) = []"
| "firstBatchFiles fileTypes (FileEntry nm (Some ftype)) =
     (if \<not> startsWith nm ''.'' \<and> isValidType fileTypes ftype
      then [\<lparr>file_name = nm, file_type = ftype\<rparr>] else [])"
| "firstBatchFiles fileTypes (DirectoryEntry nm []) = []"
| "firstBatchFiles fileTypes (DirectoryEntry nm (None # later)) = []"
| "firstBatchFiles fileTypes (DirectoryEntry nm (Some entries # later)) =
     (if startsWith nm ''.'' then [] else concat (map (firstBatchFiles fileTypes) entries))"

fun readable :: "entry \<Rightarrow> bool" where
  "readable (FileEntry nm content) = True"
| "readable (DirectoryEntry nm []) = True"
| "readable (DirectoryEntry nm (None # later)) = startsWith nm ''.''"
| "readable (DirectoryEntry nm (Some entries # later)) =
     (startsWith nm ''.'' \<or> list_all readable entries)"

fun nesting :: "entry \<Rightarrow> nat" where
  "nesting (FileEntry nm content) = 0"
| "nesting (DirectoryEntry nm []) = 1"
| "nesting (DirectoryEntry nm (None # later)) = 1"
| "nesting (DirectoryEntry nm (Some entries # later)) =
     Suc (foldr max (map nesting entries) 0)"

section \<open>The scan with the order of completion made explicit\<close>

text \<open>
  The reads of a scan run concurrently and finish in an order the host decides.  The only
  place where the source joins them is \<open>Promise.all\<close>, which keeps one slot per promise:
  when the promise at some index resolves, its value is stored in the slot of that index,
  and when all slots are filled the combined promise resolves to the array of the slots.
  \<open>promiseAllIn order promises\<close> fills the slots in the given order of completion; the
  slot of a promise that never settles stays empty, and then there is no array.

  \<open>readEntryIn\<close> and \<open>scanFilesIn\<close> are \<open>readEntry\<close> and \<open>scanFiles\<close> with that combinator;
  \<open>completion path n\<close> is the order in which the \<open>n\<close> promises joined at the directory
  reached by \<open>path\<close> (the indices of the entries from the payload down) complete.
\<close>

definition promiseAllIn :: "nat list \<Rightarrow> 'a option list \<Rightarrow> 'a list option" where
  "promiseAllIn order promises =
     those (fold (\<lambda>index values. values[index := promises ! index]) order
                 (replicate (length promises) None))"

function readEntryIn ::
  "(nat list \<Rightarrow> nat \<Rightarrow> nat list) \<Rightarrow> nat list \<Rightarrow> string list \<Rightarrow> entry \<Rightarrow> result option" where
  "readEntryIn completion path fileTypes (FileEntry nm content) =
     (if startsWith nm ''.'' then Some Null
      else (case content of
              Some ftype \<Rightarrow>
                Some (if isValidType fileTypes ftype
                      then AFile \<lparr>file_name = nm, file_type = ftype\<rparr> else Null)
            | None \<Rightarrow> Some Null))"
| "readEntryIn completion path fileTypes (DirectoryEntry nm reads) =
     (if startsWith nm ''.'' then Some Null
      else (case firstBatch reads of
              Some entries \<Rightarrow>
                (case promiseAllIn (completion path (length entries))
                        (map (\<lambda>index. readEntryIn completion (path @ [index]) fileTypes
                                         (entries ! index))
                             [0..<length entries]) of
                   Some values \<Rightarrow> Some (Arr values)
                 | None \<Rightarrow> None)
            | None \<Rightarrow> None))"
  by pat_completeness auto
termination
proof (relation "measure (\<lambda>(completion, path, fileTypes, e). size e)")
  show "wf (measure (\<lambda>(completion, path, fileTypes, e). size e))" by simp
next
  fix completion :: "nat list \<Rightarrow> nat \<Rightarrow> nat list" and path :: "nat list"
    and fileTypes :: "string list" and nm reads and entries :: "entry list" and index
  assume first: "firstBatch reads = Some entries" and "index \<in> set [0..<length entries]"
  then have "entries ! index \<in> set entries" by simp
  then have "size (entries ! index) \<le> size_list size entries"
    by (simp add: size_list_estimation')
  with first have "size (entries ! index) < size (DirectoryEntry nm reads)"
    by (cases reads) auto
  then show "((completion, path @ [index], fileTypes, entries ! index),
              (completion, path, fileTypes, DirectoryEntry nm reads))
             \<in> measure (\<lambda>(completion, path, fileTypes, e). size e)" by simp
qed

definition readItemIn ::
  "(nat list \<Rightarrow> nat \<Rightarrow> nat list) \<Rightarrow> nat list \<Rightarrow> string list \<Rightarrow> entry option \<Rightarrow> result option" where
  "readItemIn completion path fileTypes item =
     (case item of
        None \<Rightarrow> Some Null
      | Some entry \<Rightarrow> readEntryIn completion path fileTypes entry)"

definition scanFilesIn ::
  "(nat list \<Rightarrow> nat \<Rightarrow> nat list) \<Rightarrow> (string \<Rightarrow> string \<Rightarrow> int) \<Rightarrow> entry option list
   \<Rightarrow> string option \<Rightarrow> (failure + File list) option" where
  "scanFilesIn completion localeCompare items accept =
     (let fileTypes = fileTypesOf accept in
      case promiseAllIn (completion [] (length items))
             (map (\<lambda>index. readItemIn completion [index] fileTypes (items ! index))
                  [0..<length items]) of
        None \<Rightarrow> None
      | Some values \<Rightarrow>
          (let kept = filter (\<lambda>v. \<not> isNull v) (flat 100000 values) in
           if list_all isFile kept
           then Some (Inr (sortBy (\<lambda>a b. localeCompare (file_name a) (file_name b))
                                  (filesOf kept)))
           else Some (Inl OutsideModel)))"

section \<open>Properties of path resolution\<close>

lemma split_not_Nil: "split sep s \<noteq> []"
  by (induction s) (auto split: list.splits)

lemma split_no_sep: "list_all (\<lambda>s. sep \<notin> set s) (split sep s)"
  by (induction s) (auto split: list.splits)

lemma split_sepfree: "sep \<notin> set s \<Longrightarrow> split sep s = [s]"
  by (induction s) (auto split: list.splits)

lemma split_append_sep:
  "sep \<notin> set s \<Longrightarrow> split sep (s @ sep # t) = s # split sep t"
  by (induction s) (auto split: list.splits)

lemma split_join:
  "xs \<noteq> [] \<Longrightarrow> list_all (\<lambda>s. sep \<notin> set s) xs \<Longrightarrow> split sep (join [sep] xs) = xs"
proof (induction "[sep]" xs rule: join.induct)
  case 1
  then show ?case by simp
next
  case (2 s)
  then show ?case by (simp add: split_sepfree)
next
  case (3 s t ss)
  then show ?case by (simp add: split_append_sep)
qed

lemma findLastIndex_range:
  "findLastIndex (\<lambda>s i. Q s \<and> i < m) xs = -1 \<or>
   (0 \<le> findLastIndex (\<lambda>s i. Q s \<and> i < m) xs \<and> findLastIndex (\<lambda>s i. Q s \<and> i < m) xs < int m)"
proof -
  have "\<And>k. findLastIndexFrom (\<lambda>s i. Q s \<and> i < m) xs k = -1 \<or>
   (0 \<le> findLastIndexFrom (\<lambda>s i. Q s \<and> i < m) xs k \<and> findLastIndexFrom (\<lambda>s i. Q s \<and> i < m) xs k < int m)"
    subgoal for k by (induction k) auto
    done
  then show ?thesis unfolding findLastIndex_def by blast
qed

lemma resolveStep_cases:
  assumes "segs ! k = Some x"
  shows "(\<not> isDot x \<and> resolveStep k (segs, nf) = (segs, True))
       \<or> (isDot x \<and> \<not> nf \<and> resolveStep k (segs, nf) = (segs, nf))
       \<or> (isDot x \<and> nf \<and> (resolveStep k (segs, nf) = (segs[k := None], nf)
             \<or> (\<exists>l<k. resolveStep k (segs, nf) = (segs[k := None, l := None], nf))))"
proof -
  let ?l = "findLastIndex (\<lambda>s i. truthy s \<and> i < k) (segs[k := None])"
  have r: "?l = -1 \<or> (0 \<le> ?l \<and> ?l < int k)" by (rule findLastIndex_range)
  show ?thesis
  proof (cases "isDot x")
    case False
    then show ?thesis using assms by (simp add: resolveStep_def isDot_def)
  next
    case True
    show ?thesis
    proof (cases nf)
      case False
      then show ?thesis using assms True by (auto simp add: resolveStep_def isDot_def)
    next
      case nf: True
      from r show ?thesis
      proof
        assume "?l = -1"
        then show ?thesis using assms True nf by (auto simp add: resolveStep_def isDot_def Let_def)
      next
        assume a: "0 \<le> ?l \<and> ?l < int k"
        then have "nat ?l < k" by linarith
        then show ?thesis using assms True nf a by (auto simp add: resolveStep_def isDot_def Let_def)
      qed
    qed
  qed
qed

lemma resolveStep_effect:
  assumes cur: "segs ! k = Some x" and k: "k < length segs"
  shows "length (fst (resolveStep k (segs, nf))) = length segs"
    and "snd (resolveStep k (segs, nf)) = (nf \<or> \<not> isDot x)"
    and "\<And>i. fst (resolveStep k (segs, nf)) ! i = segs ! i \<or>
             (fst (resolveStep k (segs, nf)) ! i = None \<and> i \<le> k)"
    and "isDot x \<and> nf \<Longrightarrow> fst (resolveStep k (segs, nf)) ! k = None"
    and "\<not> (isDot x \<and> nf) \<Longrightarrow> fst (resolveStep k (segs, nf)) = segs"
proof -
  from resolveStep_cases [OF cur, of nf]
  consider (name) "\<not> isDot x" "resolveStep k (segs, nf) = (segs, True)"
    | (lead) "isDot x" "\<not> nf" "resolveStep k (segs, nf) = (segs, nf)"
    | (drop1) "isDot x" "nf" "resolveStep k (segs, nf) = (segs[k := None], nf)"
    | (drop2) l where "isDot x" "nf" "l < k" 
        "resolveStep k (segs, nf) = (segs[k := None, l := None], nf)"
    by blast
  note c = this
  show "length (fst (resolveStep k (segs, nf))) = length segs"
    using c by cases simp_all
  show "snd (resolveStep k (segs, nf)) = (nf \<or> \<not> isDot x)"
    using c by cases simp_all
  show "isDot x \<and> nf \<Longrightarrow> fst (resolveStep k (segs, nf)) ! k = None"
    using c k by cases (simp_all add: nth_list_update)
  show "\<not> (isDot x \<and> nf) \<Longrightarrow> fst (resolveStep k (segs, nf)) = segs"
    using c by cases simp_all
  show "fst (resolveStep k (segs, nf)) ! i = segs ! i \<or>
             (fst (resolveStep k (segs, nf)) ! i = None \<and> i \<le> k)" for i
    using c
  proof cases
    case drop1
    then show ?thesis using k by (cases "i = k") simp_all
  next
    case drop2
    then show ?thesis using k by (cases "i = k"; cases "i = l") simp_all
  qed simp_all
qed

lemma resolveInv_start: "resolveInv xs 0 (map Some xs, False)"
  by (simp add: resolveInv_def)

lemma resolveInv_step:
  assumes k: "k < length xs" and inv: "resolveInv xs k st"
  shows "resolveInv xs (Suc k) (resolveStep k st)"
proof -
  obtain segs nf where st: "st = (segs, nf)" by (cases st)
  let ?T = "resolveStep k (segs, nf)"
  from inv have len: "length segs = length xs"
    and later: "\<forall>i. k \<le> i \<and> i < length xs \<longrightarrow> segs ! i = Some (xs ! i)"
    and orig: "\<forall>i<length xs. segs ! i = None \<or> segs ! i = Some (xs ! i)"
    and nf: "nf = (\<exists>j<k. \<not> isDot (xs ! j))"
    and gone: "\<forall>i<k. isDot (xs ! i) \<and> (\<exists>j<i. \<not> isDot (xs ! j)) \<longrightarrow> segs ! i = None"
    and same: "(\<forall>i<k. isDot (xs ! i) \<longrightarrow> (\<forall>j<i. isDot (xs ! j))) \<longrightarrow> segs = map Some xs"
    by (simp_all add: resolveInv_def st)
  from later k have cur: "segs ! k = Some (xs ! k)" by simp
  from k len have kk: "k < length segs" by simp
  note eff = resolveStep_effect [OF cur kk, of nf]
  have 1: "length (fst ?T) = length xs" using eff(1) len by simp
  have 2: "\<forall>i. Suc k \<le> i \<and> i < length xs \<longrightarrow> fst ?T ! i = Some (xs ! i)"
  proof (intro allI impI)
    fix i assume i: "Suc k \<le> i \<and> i < length xs"
    with eff(3) [of i] have "fst ?T ! i = segs ! i" by auto
    with later i show "fst ?T ! i = Some (xs ! i)" by simp
  qed
  have 3: "\<forall>i<length xs. fst ?T ! i = None \<or> fst ?T ! i = Some (xs ! i)"
  proof (intro allI impI)
    fix i assume "i < length xs"
    with orig have "segs ! i = None \<or> segs ! i = Some (xs ! i)" by simp
    with eff(3) [of i] show "fst ?T ! i = None \<or> fst ?T ! i = Some (xs ! i)" by auto
  qed
  have 4: "snd ?T = (\<exists>j<Suc k. \<not> isDot (xs ! j))"
    using eff(2) nf by (auto simp: less_Suc_eq)
  have 5: "\<forall>i<Suc k. isDot (xs ! i) \<and> (\<exists>j<i. \<not> isDot (xs ! j)) \<longrightarrow> fst ?T ! i = None"
  proof (intro allI impI)
    fix i assume i: "i < Suc k" and d: "isDot (xs ! i) \<and> (\<exists>j<i. \<not> isDot (xs ! j))"
    show "fst ?T ! i = None"
    proof (cases "i = k")
      case True
      with d nf have "isDot (xs ! k) \<and> nf" by auto
      with eff(4) True show ?thesis by simp
    next
      case False
      with i have "i < k" by simp
      with gone d have "segs ! i = None" by simp
      with eff(3) [of i] show ?thesis by auto
    qed
  qed
  have 6: "(\<forall>i<Suc k. isDot (xs ! i) \<longrightarrow> (\<forall>j<i. isDot (xs ! j))) \<longrightarrow> fst ?T = map Some xs"
  proof
    assume a: "\<forall>i<Suc k. isDot (xs ! i) \<longrightarrow> (\<forall>j<i. isDot (xs ! j))"
    have "\<forall>i<k. isDot (xs ! i) \<longrightarrow> (\<forall>j<i. isDot (xs ! j))"
      using a less_SucI by blast
    with same have s: "segs = map Some xs" by simp
    have "isDot (xs ! k) \<longrightarrow> (\<forall>j<k. isDot (xs ! j))" using a lessI by blast
    with nf have "\<not> (isDot (xs ! k) \<and> nf)" by blast
    with eff(5) s show "fst ?T = map Some xs" by simp
  qed
  from 1 2 3 4 5 6 show ?thesis unfolding resolveInv_def st by blast
qed

lemma resolveInv_fold:
  "k \<le> length xs \<Longrightarrow> resolveInv xs k (fold resolveStep [0..<k] (map Some xs, False))"
proof (induction k)
  case 0
  show ?case by (simp add: resolveInv_start)
next
  case (Suc k)
  then have "resolveInv xs k (fold resolveStep [0..<k] (map Some xs, False))" and "k < length xs"
    by simp_all
  from resolveInv_step [OF this(2) this(1)] show ?case by simp
qed

lemma resolveLoop_facts:
  fixes xs :: "string list"
  defines "F \<equiv> fst (resolveLoop (map Some xs))"
  shows "length F = length xs"
    and "\<forall>i<length xs. F ! i = None \<or> F ! i = Some (xs ! i)"
    and "\<forall>i<length xs. isDot (xs ! i) \<and> (\<exists>j<i. \<not> isDot (xs ! j)) \<longrightarrow> F ! i = None"
    and "(\<forall>i<length xs. isDot (xs ! i) \<longrightarrow> (\<forall>j<i. isDot (xs ! j))) \<longrightarrow> F = map Some xs"
  using resolveInv_fold [of "length xs" xs]
  unfolding F_def resolveLoop_def resolveInv_def by simp_all

lemma dots_lead_append:
  assumes "list_all isDot ds" and "list_all (\<lambda>s. \<not> isDot s) ns"
  shows "\<forall>i<length (ds @ ns). isDot ((ds @ ns) ! i) \<longrightarrow> (\<forall>j<i. isDot ((ds @ ns) ! j))"
proof (intro allI impI)
  fix i j assume i: "i < length (ds @ ns)" and d: "isDot ((ds @ ns) ! i)" and j: "j < i"
  have "i < length ds"
  proof (rule ccontr)
    assume "\<not> i < length ds"
    then have "(ds @ ns) ! i = ns ! (i - length ds)" and "i - length ds < length ns"
      using i by (simp_all add: nth_append)
    with assms(2) d show False by (simp add: list_all_length)
  qed
  with j have "j < length ds" by simp
  with assms(1) show "isDot ((ds @ ns) ! j)" by (simp add: nth_append list_all_length)
qed

lemma takeWhile_dots_split:
  fixes xs :: "string list"
  defines "F \<equiv> fst (resolveLoop (map Some xs))"
  defines "m \<equiv> length (takeWhile isDot xs)"
  shows "list_all (\<lambda>f. f = None \<or> (\<exists>x. f = Some x \<and> isDot x \<and> x \<in> set xs)) (take m F)"
    and "list_all (\<lambda>f. f = None \<or> (\<exists>x. f = Some x \<and> \<not> isDot x \<and> x \<in> set xs)) (drop m F)"
proof -
  note facts = resolveLoop_facts [of xs, folded F_def]
  have mle: "m \<le> length xs" unfolding m_def by (simp add: length_takeWhile_le)
  have lead: "isDot (xs ! i)" if "i < m" for i
    using that unfolding m_def by (metis nth_mem set_takeWhileD takeWhile_nth)
  have first: "\<not> isDot (xs ! m)" if "m < length xs"
    using that unfolding m_def by (rule nth_length_takeWhile)
  show "list_all (\<lambda>f. f = None \<or> (\<exists>x. f = Some x \<and> isDot x \<and> x \<in> set xs)) (take m F)"
    unfolding list_all_length
  proof (intro allI impI)
    fix i assume "i < length (take m F)"
    then have i: "i < m" and il: "i < length xs" using facts(1) mle by simp_all
    from facts(2) il have "F ! i = None \<or> F ! i = Some (xs ! i)" by simp
    with lead[OF i] i il 
    show "take m F ! i = None \<or>
          (\<exists>x. take m F ! i = Some x \<and> isDot x \<and> x \<in> set xs)" by auto
  qed
  show "list_all (\<lambda>f. f = None \<or> (\<exists>x. f = Some x \<and> \<not> isDot x \<and> x \<in> set xs)) (drop m F)"
    unfolding list_all_length
  proof (intro allI impI)
    fix i assume "i < length (drop m F)"
    then have il: "m + i < length xs" using facts(1) by simp
    then have ml: "m < length xs" by simp
    have nth: "drop m F ! i = F ! (m + i)"
      using il facts(1) by simp
    from facts(2) il have or: "F ! (m + i) = None \<or> F ! (m + i) = Some (xs ! (m + i))"
      by simp
    show "drop m F ! i = None \<or>
          (\<exists>x. drop m F ! i = Some x \<and> \<not> isDot x \<and> x \<in> set xs)"
    proof (cases "isDot (xs ! (m + i))")
      case True
      with first[OF ml] have "i \<noteq> 0" by (cases i) auto
      then have "m < m + i" by simp
      with first[OF ml] have "\<exists>j<m + i. \<not> isDot (xs ! j)" by blast
      with facts(3) il True have "F ! (m + i) = None" by blast
      then show ?thesis using nth by simp
    next
      case False
      then show ?thesis using or nth il by auto
    qed
  qed
qed

lemma kept_of_slots:
  assumes "list_all (\<lambda>f. f = None \<or> (\<exists>x. f = Some x \<and> P x)) fs"
  shows "list_all (\<lambda>x. P x \<and> x \<noteq> []) (map the (filter truthy fs))"
  using assms by (induction fs) auto

lemma resolveLoop_shape:
  fixes xs :: "string list"
  defines "L \<equiv> map the (filter truthy (fst (resolveLoop (map Some xs))))"
  shows "\<exists>ds ns. L = ds @ ns \<and> list_all isDot ds \<and> list_all (\<lambda>s. \<not> isDot s) ns
           \<and> list_all (\<lambda>s. s \<in> set xs \<and> s \<noteq> []) L"
proof -
  let ?F = "fst (resolveLoop (map Some xs))"
  let ?m = "length (takeWhile isDot xs)"
  let ?ds = "map the (filter truthy (take ?m ?F))"
  let ?ns = "map the (filter truthy (drop ?m ?F))"
  have "L = map the (filter truthy (take ?m ?F @ drop ?m ?F))"
    unfolding L_def by simp
  then have app: "L = ?ds @ ?ns" by (simp only: filter_append map_append)
  have d: "list_all (\<lambda>x. (isDot x \<and> x \<in> set xs) \<and> x \<noteq> []) ?ds"
    by (rule kept_of_slots) (rule takeWhile_dots_split(1))
  have n: "list_all (\<lambda>x. (\<not> isDot x \<and> x \<in> set xs) \<and> x \<noteq> []) ?ns"
    by (rule kept_of_slots) (rule takeWhile_dots_split(2))
  have "list_all isDot ?ds" using d by (simp add: list_all_iff)
  moreover have "list_all (\<lambda>s. \<not> isDot s) ?ns" using n by (simp add: list_all_iff)
  moreover have "list_all (\<lambda>s. s \<in> set xs \<and> s \<noteq> []) L"
    using d n unfolding app by (auto simp: list_all_iff)
  ultimately show ?thesis using app by blast
qed

lemma filter_truthy_Some:
  "list_all (\<lambda>s. s \<noteq> []) L \<Longrightarrow> map the (filter truthy (map Some L)) = L"
  by (induction L) auto

lemma resolvePath_empty: "resolvePath [] = []"
  by code_simp

lemma dropWhile_dots_names:
  assumes "list_all isDot ds" and "list_all (\<lambda>s. \<not> isDot s) ns"
  shows "list_all (\<lambda>s. \<not> isDot s) (dropWhile isDot (ds @ ns))"
proof -
  from assms(1) have "dropWhile isDot (ds @ ns) = dropWhile isDot ns"
    by (induction ds) auto
  moreover have "set (dropWhile isDot ns) \<subseteq> set ns" by (rule set_dropWhileD [THEN subsetI])
  ultimately show ?thesis using assms(2) by (auto simp: list_all_iff)
qed

lemma resolvePath_shape:
  "\<exists>ds ns. resolvePath p = join ''/'' (ds @ ns) \<and> list_all isDot ds
      \<and> list_all (\<lambda>s. \<not> isDot s) ns
      \<and> list_all (\<lambda>s. CHR ''/'' \<notin> set s \<and> s \<noteq> []) (ds @ ns)"
proof -
  let ?xs = "split CHR ''/'' p"
  define L where "L = map the (filter truthy (fst (resolveLoop (map Some ?xs))))"
  have rp: "resolvePath p = join ''/'' L"
    by (simp add: resolvePath_def createPath_def L_def)
  from resolveLoop_shape [of ?xs, folded L_def]
  obtain ds ns where L: "L = ds @ ns" and ds: "list_all isDot ds"
    and ns: "list_all (\<lambda>s. \<not> isDot s) ns"
    and mem: "list_all (\<lambda>s. s \<in> set ?xs \<and> s \<noteq> []) L" by blast
  have "list_all (\<lambda>s. CHR ''/'' \<notin> set s) ?xs" by (rule split_no_sep)
  with mem have "list_all (\<lambda>s. CHR ''/'' \<notin> set s \<and> s \<noteq> []) L"
    by (auto simp: list_all_iff)
  with rp L ds ns show ?thesis by blast
qed

lemma resolvePath_join_fixed:
  assumes ds: "list_all isDot ds" and ns: "list_all (\<lambda>s. \<not> isDot s) ns"
    and ok: "list_all (\<lambda>s. CHR ''/'' \<notin> set s \<and> s \<noteq> []) (ds @ ns)"
  shows "resolvePath (join ''/'' (ds @ ns)) = join ''/'' (ds @ ns)"
proof (cases "ds @ ns = []")
  case True
  then show ?thesis by (simp add: resolvePath_empty)
next
  case False
  let ?L = "ds @ ns"
  from ok have free: "list_all (\<lambda>s. CHR ''/'' \<notin> set s) ?L"
    and ne: "list_all (\<lambda>s. s \<noteq> []) ?L" by (auto simp: list_all_iff)
  have sp: "split CHR ''/'' (join ''/'' ?L) = ?L"
    by (rule split_join [OF False free])
  have "\<forall>i<length ?L. isDot (?L ! i) \<longrightarrow> (\<forall>j<i. isDot (?L ! j))"
    by (rule dots_lead_append [OF ds ns])
  with resolveLoop_facts(4) [of ?L] have same: "fst (resolveLoop (map Some ?L)) = map Some ?L"
    by blast
  show ?thesis
    by (simp only: resolvePath_def createPath_def sp same filter_truthy_Some [OF ne])
qed

subsection \<open>The documented examples\<close>

text \<open>
  C7.  The three examples of the path normaliser: \<open>a/b/c/../../d.png\<close> resolves to
  \<open>a/d.png\<close>; \<open>../a/b.png\<close>, whose dot segment is leading, is returned as it is; and
  \<open>a/./b.png\<close> resolves to \<open>a/b.png\<close>.
\<close>

theorem resolvePath_examples:
  "resolvePath ''a/b/c/../../d.png'' = ''a/d.png''
   \<and> resolvePath ''../a/b.png'' = ''../a/b.png''
   \<and> resolvePath ''a/./b.png'' = ''a/b.png''"
  by code_simp

subsection \<open>A leading dot segment that is consumed\<close>

text \<open>
  C6.  The claim is that a \<open>..\<close> met after a real name removes itself and the most recent
  real segment before it that is still there, and is removed alone when there is none, so
  that a leading dot segment is never consumed.  The search of the source,
  \<open>findLastIndex((s, i) => !!s && i < index)\<close>, accepts any slot that is not empty, a
  leading \<open>..\<close> included.  On \<open>../a/../..\<close> the first \<open>..\<close> after \<open>a\<close> removes \<open>a\<close>; the next
  one finds no real segment left and removes the leading \<open>..\<close>: the step at index 3 empties
  slot 0, and the path resolves to the empty string where the claim leaves \<open>..\<close>.
\<close>

theorem resolvePath_consumes_leading_dots:
  "resolvePath ''../a/../..'' = []
   \<and> resolveStep 3 ([Some ''..'', None, None, Some ''..''], True)
       = ([None, None, None, None], True)"
  by code_simp

subsection \<open>Idempotence\<close>

text \<open>
  C10.  Resolving a resolved path changes nothing: for every path \<open>p\<close>,
  \<open>resolvePath (resolvePath p) = resolvePath p\<close>.  Equivalently, in the segments of a
  resolved path the segments \<open>.\<close> and \<open>..\<close> form a leading block: behind the first segment
  that is not one of them there is none.
\<close>

theorem resolvePath_idempotent:
  "resolvePath (resolvePath p) = resolvePath p
   \<and> list_all (\<lambda>s. \<not> isDot s) (dropWhile isDot (split CHR ''/'' (resolvePath p)))"
proof -
  from resolvePath_shape [of p] obtain ds ns where rp: "resolvePath p = join ''/'' (ds @ ns)"
    and ds: "list_all isDot ds" and ns: "list_all (\<lambda>s. \<not> isDot s) ns"
    and ok: "list_all (\<lambda>s. CHR ''/'' \<notin> set s \<and> s \<noteq> []) (ds @ ns)" by blast
  have idem: "resolvePath (resolvePath p) = resolvePath p"
    unfolding rp by (rule resolvePath_join_fixed [OF ds ns ok])
  have "list_all (\<lambda>s. \<not> isDot s) (dropWhile isDot (split CHR ''/'' (join ''/'' (ds @ ns))))"
  proof (cases "ds @ ns = []")
    case True
    then show ?thesis by (simp add: isDot_def)
  next
    case False
    from ok have "list_all (\<lambda>s. CHR ''/'' \<notin> set s) (ds @ ns)" by (auto simp: list_all_iff)
    from split_join [OF False this] dropWhile_dots_names [OF ds ns] show ?thesis by simp
  qed
  with idem rp show ?thesis by simp
qed

section \<open>Properties of renaming\<close>

lemma set_insertBy: "set (insertBy c x xs) = insert x (set xs)"
  by (induction xs) auto

lemma mset_insertBy: "mset (insertBy c x xs) = add_mset x (mset xs)"
  by (induction xs) auto

lemma mset_sortBy: "mset (sortBy c xs) = mset xs"
  unfolding sortBy_def by (induction xs) (simp_all add: mset_insertBy)

lemma set_sortBy: "set (sortBy c xs) = set xs"
  using mset_sortBy [of c xs] by (metis set_mset_mset)

lemma sorted_insertBy:
  assumes total: "\<And>a b. c a b \<le> 0 \<or> c b a \<le> 0"
    and trans: "\<And>a b d. c a b \<le> 0 \<Longrightarrow> c b d \<le> 0 \<Longrightarrow> c a d \<le> 0"
    and "sorted_wrt (\<lambda>a b. c a b \<le> 0) xs"
  shows "sorted_wrt (\<lambda>a b. c a b \<le> 0) (insertBy c x xs)"
  using assms(3)
proof (induction xs)
  case Nil
  then show ?case by simp
next
  case (Cons y ys)
  show ?case
  proof (cases "c x y \<le> 0")
    case True
    with Cons.prems trans show ?thesis by auto
  next
    case False
    with total have "c y x \<le> 0" by blast
    with Cons False show ?thesis by (auto simp: set_insertBy)
  qed
qed

lemma sorted_sortBy:
  assumes total: "\<And>a b. c a b \<le> 0 \<or> c b a \<le> 0"
    and trans: "\<And>a b d. c a b \<le> 0 \<Longrightarrow> c b d \<le> 0 \<Longrightarrow> c a d \<le> 0"
  shows "sorted_wrt (\<lambda>a b. c a b \<le> 0) (sortBy c xs)"
  unfolding sortBy_def
  by (induction xs) (simp_all add: sorted_insertBy [OF total trans])

lemma codeUnitCompare_total: "codeUnitCompare a b \<le> 0 \<or> codeUnitCompare b a \<le> 0"
  by (induction a b rule: codeUnitCompare.induct) auto

lemma codeUnitCompare_le_iff:
  "codeUnitCompare (x # xs) (y # ys) \<le> 0 \<longleftrightarrow>
   (of_char x :: nat) < of_char y \<or> (x = y \<and> codeUnitCompare xs ys \<le> 0)"
  by auto

lemma codeUnitCompare_trans:
  "codeUnitCompare a b \<le> 0 \<Longrightarrow> codeUnitCompare b c \<le> 0 \<Longrightarrow> codeUnitCompare a c \<le> 0"
proof (induction a b arbitrary: c rule: codeUnitCompare.induct)
  case 1
  then show ?case by simp
next
  case (2 y ys)
  then show ?case by (cases c) auto
next
  case (3 x xs)
  then show ?case by simp
next
  case (4 x xs y ys)
  show ?case
  proof (cases c)
    case Nil
    with "4.prems" show ?thesis by simp
  next
    case (Cons z zs)
    from "4.prems"(1) have xy: "(of_char x :: nat) < of_char y \<or> (x = y \<and> codeUnitCompare xs ys \<le> 0)"
      by (simp only: codeUnitCompare_le_iff)
    from "4.prems"(2) Cons have yz: "(of_char y :: nat) < of_char z \<or> (y = z \<and> codeUnitCompare ys zs \<le> 0)"
      by (simp only: codeUnitCompare_le_iff)
    from xy yz consider "(of_char x :: nat) < of_char z"
      | "x = y" "y = z" "codeUnitCompare xs ys \<le> 0" "codeUnitCompare ys zs \<le> 0"
      by auto
    then show ?thesis
    proof cases
      case 1
      then show ?thesis unfolding Cons by (simp only: codeUnitCompare_le_iff) simp
    next
      case 2
      with "4.IH" [of zs] have "codeUnitCompare xs zs \<le> 0" by simp
      with 2 show ?thesis unfolding Cons by (simp only: codeUnitCompare_le_iff) simp
    qed
  qed
qed

lemmas rename_defs = renameIfNeeded_def sortBy_def findLast_def firstPart_def variantMatch_def
  extensionAt_def isAlnum_def isDigit_def isLineTerminator_def Number_def digitValue_def Let_def

subsection \<open>The documented examples\<close>

text \<open>
  C4.  The four examples of the name deduplicator: with no other names \<open>photo.jpg\<close> is
  kept; beside \<open>photo.jpg\<close> it becomes \<open>photo-1.jpg\<close>; beside \<open>photo.jpg\<close> and \<open>photo-1.jpg\<close>
  it becomes \<open>photo-2.jpg\<close>; and \<open>notes\<close> beside \<open>notes\<close> and \<open>notes-3\<close> becomes \<open>notes-4\<close>.
  The last two depend on the order the host's collation gives the other names: it has to
  put \<open>photo\<close> before \<open>photo-1\<close> and \<open>notes\<close> before \<open>notes-3\<close>, a string before its
  extension, as the collations of the host do.
\<close>

theorem renameIfNeeded_examples:
  assumes "localeCompare ''photo'' ''photo-1'' \<le> 0"
    and "localeCompare ''notes'' ''notes-3'' \<le> 0"
  shows "fst (renameIfNeeded localeCompare ''photo.jpg'' []) = Inr ''photo.jpg''
    \<and> fst (renameIfNeeded localeCompare ''photo.jpg'' [''photo.jpg'']) = Inr ''photo-1.jpg''
    \<and> fst (renameIfNeeded localeCompare ''photo.jpg'' [''photo.jpg'', ''photo-1.jpg''])
        = Inr ''photo-2.jpg''
    \<and> fst (renameIfNeeded localeCompare ''notes'' [''notes'', ''notes-3'']) = Inr ''notes-4''"
  using assms by (simp add: rename_defs numberToString.simps)

theorem renameIfNeeded_examples_witness:
  "codeUnitCompare ''photo'' ''photo-1'' \<le> 0
    \<and> codeUnitCompare ''notes'' ''notes-3'' \<le> 0
    \<and> fst (renameIfNeeded codeUnitCompare ''photo.jpg'' []) = Inr ''photo.jpg''
    \<and> fst (renameIfNeeded codeUnitCompare ''photo.jpg'' [''photo.jpg'']) = Inr ''photo-1.jpg''
    \<and> fst (renameIfNeeded codeUnitCompare ''photo.jpg'' [''photo.jpg'', ''photo-1.jpg''])
        = Inr ''photo-2.jpg''
    \<and> fst (renameIfNeeded codeUnitCompare ''notes'' [''notes'', ''notes-3'']) = Inr ''notes-4''"
proof -
  have a: "codeUnitCompare ''photo'' ''photo-1'' \<le> 0" by simp
  have b: "codeUnitCompare ''notes'' ''notes-3'' \<le> 0" by simp
  from renameIfNeeded_examples [OF a b] a b show ?thesis by simp
qed

subsection \<open>A numbered variant without the base name\<close>

text \<open>
  C5, as claimed: beside \<open>photo-1.jpg\<close> alone, \<open>photo.jpg\<close> is returned unchanged.  It is
  not: the expression built from the name accepts the numbered variants as well as the
  base name, so \<open>photo-1.jpg\<close> is found as the duplicate.
\<close>

theorem renameIfNeeded_variant_alone_counterexample:
  "fst (renameIfNeeded codeUnitCompare ''photo.jpg'' [''photo-1.jpg'']) \<noteq> Inr ''photo.jpg''"
  by (simp add: rename_defs numberToString.simps)

text \<open>
  C5, amended: beside \<open>photo-1.jpg\<close> alone, \<open>photo.jpg\<close> becomes \<open>photo-2.jpg\<close>, whatever the
  collation: a numbered variant among the other names is enough for a renaming, and the
  new number is one more than the number of the variant found.
\<close>

theorem renameIfNeeded_variant_alone:
  "fst (renameIfNeeded localeCompare ''photo.jpg'' [''photo-1.jpg'']) = Inr ''photo-2.jpg''"
  by (simp add: rename_defs numberToString.simps)

subsection \<open>The array of the other names\<close>

text \<open>
  C8, as claimed: a call leaves the array of the existing names as it was, the same
  elements in the same order.  It does not: \<open>otherNames.sort(...)\<close> sorts the caller's array
  in place, and \<open>[b, a]\<close> is \<open>[a, b]\<close> after the call.
\<close>

theorem renameIfNeeded_reorders_counterexample:
  "snd (renameIfNeeded codeUnitCompare ''c'' [''b'', ''a'']) \<noteq> [''b'', ''a'']"
  by (simp add: rename_defs)

text \<open>
  C8, amended: for every name and every array of existing names, the call leaves the
  array with the same names as often as before, but not always in the same order:
  afterwards the array either is as it was or is sorted by the part of each name before
  its first dot.  The call reads and writes nothing else.
\<close>

theorem renameIfNeeded_keeps_elements:
  "mset (snd (renameIfNeeded localeCompare name otherNames)) = mset otherNames
   \<and> (snd (renameIfNeeded localeCompare name otherNames) = otherNames
      \<or> snd (renameIfNeeded localeCompare name otherNames)
          = sortBy (\<lambda>a b. localeCompare (firstPart a) (firstPart b)) otherNames)"
  by (auto simp: renameIfNeeded_def Let_def mset_sortBy split: option.splits prod.splits)

subsection \<open>A name that does not match\<close>

text \<open>
  C9.  The claim is that no operation throws: a name that does not have the shape
  \<open>slug[.ext]\<close>, the empty string included, is taken as a slug without extension.  The
  source prepares for the failed match with \<open>?? []\<close>, but that leaves \<open>slug\<close> undefined,
  and \<open>escapeRegExp(slug)\<close> throws a \<open>TypeError\<close>.  This happens for the empty name and
  for a name that ends in a line terminator, whenever there are other names.
\<close>

theorem renameIfNeeded_throws:
  "fst (renameIfNeeded localeCompare '''' [''a'']) = Inl TypeError
   \<and> fst (renameIfNeeded localeCompare [CHR ''a'', CHR 0x0A] [''a'']) = Inl TypeError"
  by (simp add: rename_defs)

section \<open>Properties of the scan\<close>

lemma promiseAll_Some:
  "promiseAll ps = Some vs \<Longrightarrow> ps = map Some vs"
  by (induction ps arbitrary: vs) (auto split: option.splits)

lemma promiseAll_member:
  assumes "promiseAll (map g xs) = Some vs" and "w \<in> set vs"
  shows "\<exists>x\<in>set xs. g x = Some w"
proof -
  from assms(1) have "map g xs = map Some vs" by (rule promiseAll_Some)
  with assms(2) have "Some w \<in> set (map g xs)" by simp
  then show ?thesis by auto
qed

lemma leaves_flat: "concat (map leaves (flat d vs)) = concat (map leaves vs)"
  by (induction d vs rule: flat.induct) auto

lemma filesOf_kept:
  "list_all isFile (filter (\<lambda>v. \<not> isNull v) vs) \<Longrightarrow>
   filesOf (filter (\<lambda>v. \<not> isNull v) vs) = concat (map leaves vs)"
  by (induction vs rule: filesOf.induct) auto

lemma foldr_max_le: "foldr max (map g xs) 0 \<le> (k::nat) \<longleftrightarrow> list_all (\<lambda>x. g x \<le> k) xs"
  by (induction xs) auto

lemma flat_no_arrays:
  "list_all (\<lambda>v. arrayDepth v \<le> d) vs \<Longrightarrow>
   list_all isFile (filter (\<lambda>v. \<not> isNull v) (flat d vs))"
proof (induction d vs rule: flat.induct)
  case (2 depth ys xs)
  from "2.prems" have d: "depth \<noteq> 0" and "foldr max (map arrayDepth ys) 0 \<le> depth - 1"
    and xs: "list_all (\<lambda>v. arrayDepth v \<le> depth) xs"
    by auto
  then have "list_all (\<lambda>v. arrayDepth v \<le> depth - 1) ys" by (simp add: foldr_max_le)
  with "2.IH" d xs show ?case by simp
qed simp_all

lemma firstBatchFiles_directory:
  "firstBatchFiles fileTypes (DirectoryEntry nm reads) =
     (if startsWith nm ''.'' then []
      else (case firstBatch reads of
              None \<Rightarrow> []
            | Some entries \<Rightarrow> concat (map (firstBatchFiles fileTypes) entries)))"
  by (cases "(fileTypes, DirectoryEntry nm reads)" rule: firstBatchFiles.cases) auto

lemma readEntry_firstBatchFiles:
  "readEntry fileTypes e = Some v \<Longrightarrow> leaves v = firstBatchFiles fileTypes e"
proof (induction fileTypes e arbitrary: v rule: readEntry.induct)
  case (1 fileTypes nm content)
  then show ?case by (cases content) (auto split: if_splits)
next
  case (2 fileTypes nm reads)
  show ?case
  proof (cases "startsWith nm ''.''")
    case True
    with "2.prems" show ?thesis by (simp add: firstBatchFiles_directory)
  next
    case False
    with "2.prems" obtain entries vs where fb: "firstBatch reads = Some entries"
      and pa: "promiseAll (map (readEntry fileTypes) entries) = Some vs" and v: "v = Arr vs"
      by (auto split: option.splits)
    from promiseAll_Some [OF pa] have m: "map (readEntry fileTypes) entries = map Some vs" .
    then have len: "length entries = length vs" by (metis length_map)
    have "map leaves vs = map (firstBatchFiles fileTypes) entries"
    proof (rule nth_equalityI)
      show "length (map leaves vs) = length (map (firstBatchFiles fileTypes) entries)"
        using len by simp
    next
      fix i assume "i < length (map leaves vs)"
      then have i: "i < length vs" by simp
      with len have ie: "entries ! i \<in> set entries" by simp
      from m i len have "readEntry fileTypes (entries ! i) = Some (vs ! i)"
        by (metis length_map nth_map)
      from "2.IH" [OF False fb ie this] i len
      show "map leaves vs ! i = map (firstBatchFiles fileTypes) entries ! i" by simp
    qed
    then have "leaves v = concat (map (firstBatchFiles fileTypes) entries)" by (simp add: v)
    with fb False show ?thesis by (simp add: firstBatchFiles_directory)
  qed
qed

lemma readable_directory:
  "readable (DirectoryEntry nm reads) =
     (startsWith nm ''.'' \<or>
      (case firstBatch reads of None \<Rightarrow> False | Some entries \<Rightarrow> list_all readable entries))"
  by (cases "DirectoryEntry nm reads" rule: readable.cases) auto

lemma nesting_directory:
  "firstBatch reads = Some entries \<Longrightarrow>
   nesting (DirectoryEntry nm reads) = Suc (foldr max (map nesting entries) 0)"
  by (cases "DirectoryEntry nm reads" rule: nesting.cases) auto

lemma promiseAll_defined:
  "list_all (\<lambda>x. g x \<noteq> None) xs \<Longrightarrow> \<exists>vs. promiseAll (map g xs) = Some vs"
  by (induction xs) auto

lemma readEntry_readable:
  "readable e \<Longrightarrow> \<exists>v. readEntry fileTypes e = Some v"
proof (induction fileTypes e rule: readEntry.induct)
  case (1 fileTypes nm content)
  then show ?case by (simp split: option.splits)
next
  case (2 fileTypes nm reads)
  show ?case
  proof (cases "startsWith nm ''.''")
    case True
    then show ?thesis by simp
  next
    case False
    with "2.prems" obtain entries where fb: "firstBatch reads = Some entries"
      and all: "list_all readable entries"
      by (auto simp: readable_directory split: option.splits)
    from "2.IH" [OF False fb] all
    have "list_all (\<lambda>e. readEntry fileTypes e \<noteq> None) entries"
      by (auto simp: list_all_iff)
    from promiseAll_defined [OF this] obtain vs
      where "promiseAll (map (readEntry fileTypes) entries) = Some vs" by blast
    with False fb show ?thesis by simp
  qed
qed

lemma readEntry_depth:
  "readEntry fileTypes e = Some v \<Longrightarrow> arrayDepth v \<le> nesting e"
proof (induction fileTypes e arbitrary: v rule: readEntry.induct)
  case (1 fileTypes nm content)
  then show ?case by (auto split: if_splits option.splits)
next
  case (2 fileTypes nm reads)
  show ?case
  proof (cases "startsWith nm ''.''")
    case True
    with "2.prems" show ?thesis by simp
  next
    case False
    with "2.prems" obtain entries vs where fb: "firstBatch reads = Some entries"
      and pa: "promiseAll (map (readEntry fileTypes) entries) = Some vs" and v: "v = Arr vs"
      by (auto split: option.splits)
    let ?k = "foldr max (map nesting entries) 0"
    have "list_all (\<lambda>w. arrayDepth w \<le> ?k) vs"
      unfolding list_all_iff
    proof
      fix w assume w: "w \<in> set vs"
      from promiseAll_member [OF pa w] obtain e where e: "e \<in> set entries"
        and r: "readEntry fileTypes e = Some w" by blast
      from "2.IH" [OF False fb e r] have "arrayDepth w \<le> nesting e" .
      moreover from e have "nesting e \<le> ?k"
        using foldr_max_le [of nesting entries ?k] by (simp add: list_all_iff)
      ultimately show "arrayDepth w \<le> ?k" by simp
    qed
    then have "foldr max (map arrayDepth vs) 0 \<le> ?k" by (simp add: foldr_max_le)
    then show ?thesis by (simp add: v nesting_directory [OF fb])
  qed
qed

lemma readItem_leaves:
  "readItem fileTypes item = Some v \<Longrightarrow>
   leaves v = (case item of None \<Rightarrow> [] | Some e \<Rightarrow> firstBatchFiles fileTypes e)"
  by (cases item) (auto simp: readItem_def readEntry_firstBatchFiles)

lemma readItems_leaves:
  "map (readItem fileTypes) items = map Some vs \<Longrightarrow>
   concat (map leaves vs) = concat (map (firstBatchFiles fileTypes) (entriesOf items))"
proof (induction items arbitrary: vs)
  case Nil
  then show ?case by (simp add: entriesOf_def)
next
  case (Cons item items)
  then obtain v ws where vs: "vs = v # ws" and v: "readItem fileTypes item = Some v"
    and ws: "map (readItem fileTypes) items = map Some ws" by auto
  from Cons.IH [OF ws] readItem_leaves [OF v] show ?case
    by (cases item) (simp_all add: vs entriesOf_def)
qed

lemma scanFiles_Inr:
  assumes "scanFiles lc items accept = Some (Inr files)"
  shows "files = sortBy (\<lambda>a b. lc (file_name a) (file_name b))
                   (concat (map (firstBatchFiles (fileTypesOf accept)) (entriesOf items)))"
proof -
  let ?ft = "fileTypesOf accept"
  from assms obtain vs where pa: "promiseAll (map (readItem ?ft) items) = Some vs"
    and ok: "list_all isFile (filter (\<lambda>v. \<not> isNull v) (flat 100000 vs))"
    and files: "files = sortBy (\<lambda>a b. lc (file_name a) (file_name b))
                   (filesOf (filter (\<lambda>v. \<not> isNull v) (flat 100000 vs)))"
    by (auto simp: scanFiles_def Let_def split: option.splits if_splits)
  have "filesOf (filter (\<lambda>v. \<not> isNull v) (flat 100000 vs)) = concat (map leaves vs)"
    using filesOf_kept [OF ok] by (simp add: leaves_flat)
  also have "\<dots> = concat (map (firstBatchFiles ?ft) (entriesOf items))"
    by (rule readItems_leaves [OF promiseAll_Some [OF pa]])
  finally show ?thesis using files by simp
qed

lemma firstBatchFiles_accepted:
  "f \<in> set (firstBatchFiles fileTypes e) \<Longrightarrow>
   isValidType fileTypes (file_type f) \<and> \<not> startsWith (file_name f) ''.''"
proof (induction fileTypes e rule: firstBatchFiles.induct)
  case (5 fileTypes nm entries later)
  then show ?case by (auto split: if_splits)
qed (auto split: if_splits)

text \<open>
  The scan as modelled here returns a list for a readable payload nested at most 100000
  deep.  This is a fact about the model: in the engine the nest has to fit the call stack
  of \<open>flat\<close> as well.
\<close>

lemma scanFiles_settles:
  assumes r: "list_all readable (entriesOf items)"
    and n: "list_all (\<lambda>e. nesting e \<le> 100000) (entriesOf items)"
  shows "\<exists>files. scanFiles lc items accept = Some (Inr files)"
proof -
  let ?ft = "fileTypesOf accept"
  have "list_all (\<lambda>item. readItem ?ft item \<noteq> None) items"
    unfolding list_all_iff
  proof
    fix item assume "item \<in> set items"
    show "readItem ?ft item \<noteq> None"
    proof (cases item)
      case None
      then show ?thesis by (simp add: readItem_def)
    next
      case (Some e)
      with \<open>item \<in> set items\<close> have "e \<in> set (entriesOf items)"
        by (force simp: entriesOf_def)
      with r have "readable e" by (simp add: list_all_iff)
      from readEntry_readable [OF this, of ?ft] Some show ?thesis by (auto simp: readItem_def)
    qed
  qed
  from promiseAll_defined [OF this] obtain vs
    where pa: "promiseAll (map (readItem ?ft) items) = Some vs" by blast
  have "list_all (\<lambda>v. arrayDepth v \<le> 100000) vs"
    unfolding list_all_iff
  proof
    fix v assume "v \<in> set vs"
    from promiseAll_member [OF pa this] obtain item where item: "item \<in> set items"
      and v: "readItem ?ft item = Some v" by blast
    show "arrayDepth v \<le> 100000"
    proof (cases item)
      case None
      with v show ?thesis by (auto simp: readItem_def)
    next
      case (Some e)
      with item have "e \<in> set (entriesOf items)" by (force simp: entriesOf_def)
      with n have "nesting e \<le> 100000" by (simp add: list_all_iff)
      moreover from v Some have "arrayDepth v \<le> nesting e"
        by (simp add: readItem_def readEntry_depth)
      ultimately show ?thesis by simp
    qed
  qed
  from flat_no_arrays [OF this] pa show ?thesis
    by (simp add: scanFiles_def Let_def)
qed

lemma those_promiseAll: "those ps = promiseAll ps"
  by (induction ps) (auto split: option.splits)

lemma fold_fill_nth:
  "length values = length promises \<Longrightarrow> i < length promises \<Longrightarrow>
   fold (\<lambda>index values. values[index := promises ! index]) order values ! i
     = (if i \<in> set order then promises ! i else values ! i)"
  by (induction "order" arbitrary: "values") (auto simp: nth_list_update)

lemma fold_fill_length:
  "length (fold (\<lambda>index values. values[index := promises ! index]) order values) = length values"
  by (induction "order" arbitrary: "values") auto

lemma promiseAllIn_promiseAll:
  assumes "set order = {0..<length promises}"
  shows "promiseAllIn order promises = promiseAll promises"
proof -
  have "fold (\<lambda>index values. values[index := promises ! index]) order
          (replicate (length promises) None) = promises"
  proof (rule nth_equalityI)
    show "length (fold (\<lambda>index values. values[index := promises ! index]) order
          (replicate (length promises) None)) = length promises"
      by (simp add: fold_fill_length)
  next
    fix i assume "i < length (fold (\<lambda>index values. values[index := promises ! index]) order
          (replicate (length promises) None))"
    then have i: "i < length promises" by (simp add: fold_fill_length)
    with assms have "i \<in> set order" by simp
    with i show "fold (\<lambda>index values. values[index := promises ! index]) order
          (replicate (length promises) None) ! i = promises ! i"
      by (simp add: fold_fill_nth)
  qed
  then show ?thesis by (simp add: promiseAllIn_def those_promiseAll)
qed

lemma readEntryIn_readEntry:
  assumes valid: "\<And>path n. set (completion path n) = {0..<n}"
  shows "readEntryIn completion path fileTypes e = readEntry fileTypes e"
proof (induction fileTypes e arbitrary: path rule: readEntry.induct)
  case (1 fileTypes nm content)
  show ?case by simp
next
  case (2 fileTypes nm reads)
  show ?case
  proof (cases "startsWith nm ''.''")
    case True
    then show ?thesis by simp
  next
    case False
    show ?thesis
    proof (cases "firstBatch reads")
      case None
      with False show ?thesis by simp
    next
      case (Some entries)
      have "map (\<lambda>index. readEntryIn completion (path @ [index]) fileTypes (entries ! index))
              [0..<length entries] = map (readEntry fileTypes) entries"
        by (rule nth_equalityI) (simp_all add: "2.IH" [OF False Some])
      moreover have "set (completion path (length entries))
          = {0..<length (map (readEntry fileTypes) entries)}" by (simp add: valid)
      ultimately show ?thesis using False Some
        by (simp add: promiseAllIn_promiseAll)
    qed
  qed
qed

lemma scanFilesIn_scanFiles:
  assumes valid: "\<And>path n. set (completion path n) = {0..<n}"
  shows "scanFilesIn completion localeCompare items accept = scanFiles localeCompare items accept"
proof -
  let ?ft = "fileTypesOf accept"
  have "map (\<lambda>index. readItemIn completion [index] ?ft (items ! index)) [0..<length items]
        = map (readItem ?ft) items"
    by (rule nth_equalityI)
       (simp_all add: readItemIn_def readItem_def readEntryIn_readEntry [OF valid]
          split: option.splits)
  moreover have "set (completion [] (length items)) = {0..<length (map (readItem ?ft) items)}"
    by (simp add: valid)
  ultimately show ?thesis
    by (simp add: scanFilesIn_def scanFiles_def promiseAllIn_promiseAll)
qed

lemmas scan_defs = scanFiles_def readItem_def fileTypesOf_def trim_def isSpace_def
  startsWith_def isValidType_def typeOf_def subtypeOf_def sortBy_def entriesOf_def Let_def

subsection \<open>Every file of the output is accepted and visible\<close>

text \<open>
  C1.  For every payload and every \<open>accept\<close> string, each file in the list that
  \<open>scanFiles\<close> returns satisfies the filter: the filter is empty, or some pattern of it
  has the subtype \<open>*\<close> and the primary type of the file, or is no such pattern and equals
  the declared type of the file.  And the name of no file in the list begins with a dot,
  however deep the file lay.
\<close>

theorem scanFiles_accepts:
  assumes "scanFiles localeCompare items accept = Some (Inr files)" and "f \<in> set files"
  shows "(fileTypesOf accept = []
          \<or> (\<exists>mimeType \<in> set (fileTypesOf accept).
                if subtypeOf mimeType = Some ''*''
                then typeOf (file_type f) = typeOf mimeType
                else file_type f = mimeType))
         \<and> \<not> startsWith (file_name f) ''.''"
proof -
  from scanFiles_Inr [OF assms(1)] assms(2)
  have "f \<in> set (concat (map (firstBatchFiles (fileTypesOf accept)) (entriesOf items)))"
    by (simp add: set_sortBy)
  then obtain e where "f \<in> set (firstBatchFiles (fileTypesOf accept) e)" by auto
  from firstBatchFiles_accepted [OF this] show ?thesis
    by (simp add: isValidType_def list_ex_iff)
qed

theorem scanFiles_accepts_witness:
  "scanFiles codeUnitCompare
     [Some (DirectoryEntry ''site''
        [Some [DirectoryEntry ''.git'' [Some [FileEntry ''config'' (Some ''text/plain'')]],
               FileEntry ''README.md'' (Some ''text/markdown''),
               DirectoryEntry ''img'' [Some [FileEntry ''cat.png'' (Some ''image/png'')]]]])]
     (Some ''image/*'')
   = Some (Inr [\<lparr>file_name = ''cat.png'', file_type = ''image/png''\<rparr>])
   \<and> fileTypesOf (Some ''image/*'') = [''image/*'']
   \<and> subtypeOf ''image/*'' = Some ''*''
   \<and> typeOf ''image/png'' = typeOf ''image/*''
   \<and> \<not> startsWith ''cat.png'' ''.''"
proof -
  have run: "scanFiles codeUnitCompare
     [Some (DirectoryEntry ''site''
        [Some [DirectoryEntry ''.git'' [Some [FileEntry ''config'' (Some ''text/plain'')]],
               FileEntry ''README.md'' (Some ''text/markdown''),
               DirectoryEntry ''img'' [Some [FileEntry ''cat.png'' (Some ''image/png'')]]]])]
     (Some ''image/*'')
   = Some (Inr [\<lparr>file_name = ''cat.png'', file_type = ''image/png''\<rparr>])"
    by (simp add: scan_defs)
  have mem: "\<lparr>file_name = ''cat.png'', file_type = ''image/png''\<rparr>
     \<in> set [\<lparr>file_name = ''cat.png'', file_type = ''image/png''\<rparr>]" by simp
  from scanFiles_accepts [OF run mem] run show ?thesis
    by (simp add: scan_defs)
qed

subsection \<open>The output is sorted, whatever the order of completion\<close>

text \<open>
  C2.  Let the collation be a total preorder, as \<open>localeCompare\<close> is in every locale.  If a
  scan returns a list of files, the list is sorted ascending by file name under the
  collation, and a scan of the same payload whose reads complete in any other order
  returns the same list in the same order.
\<close>

theorem scanFiles_sorted_any_completion:
  assumes "\<And>path n. set (completion path n) = {0..<n}"
    and "\<And>path n. set (completion' path n) = {0..<n}"
    and total: "\<And>a b. localeCompare a b \<le> 0 \<or> localeCompare b a \<le> 0"
    and trans: "\<And>a b c. localeCompare a b \<le> 0 \<Longrightarrow> localeCompare b c \<le> 0
                  \<Longrightarrow> localeCompare a c \<le> 0"
    and run: "scanFilesIn completion localeCompare items accept = Some (Inr files)"
  shows "scanFilesIn completion' localeCompare items accept = Some (Inr files)
    \<and> sorted_wrt (\<lambda>a b. localeCompare (file_name a) (file_name b) \<le> 0) files"
proof -
  have "scanFilesIn completion' localeCompare items accept
           = scanFilesIn completion localeCompare items accept"
    by (simp add: scanFilesIn_scanFiles assms(1) assms(2))
  with run have same: "scanFilesIn completion' localeCompare items accept = Some (Inr files)"
    by simp
  from run have "scanFiles localeCompare items accept = Some (Inr files)"
    by (simp add: scanFilesIn_scanFiles assms(1))
  from scanFiles_Inr [OF this]
  have "sorted_wrt (\<lambda>a b. localeCompare (file_name a) (file_name b) \<le> 0) files"
    using sorted_sortBy [of "\<lambda>a b. localeCompare (file_name a) (file_name b)"]
      total trans by blast
  with same show ?thesis by simp
qed

theorem scanFiles_sorted_any_completion_witness:
  "scanFilesIn (\<lambda>path n. [0..<n]) codeUnitCompare
     [Some (FileEntry ''b.txt'' (Some ''text/plain'')),
      Some (DirectoryEntry ''d'' [Some [FileEntry ''c.txt'' (Some ''text/plain''),
                                        FileEntry ''a.txt'' (Some ''text/plain'')]])]
     None
   = Some (Inr [\<lparr>file_name = ''a.txt'', file_type = ''text/plain''\<rparr>,
                \<lparr>file_name = ''b.txt'', file_type = ''text/plain''\<rparr>,
                \<lparr>file_name = ''c.txt'', file_type = ''text/plain''\<rparr>])
   \<and> scanFilesIn (\<lambda>path n. rev [0..<n]) codeUnitCompare
     [Some (FileEntry ''b.txt'' (Some ''text/plain'')),
      Some (DirectoryEntry ''d'' [Some [FileEntry ''c.txt'' (Some ''text/plain''),
                                        FileEntry ''a.txt'' (Some ''text/plain'')]])]
     None
   = Some (Inr [\<lparr>file_name = ''a.txt'', file_type = ''text/plain''\<rparr>,
                \<lparr>file_name = ''b.txt'', file_type = ''text/plain''\<rparr>,
                \<lparr>file_name = ''c.txt'', file_type = ''text/plain''\<rparr>])
   \<and> sorted_wrt (\<lambda>a b. codeUnitCompare (file_name a) (file_name b) \<le> 0)
        [\<lparr>file_name = ''a.txt'', file_type = ''text/plain''\<rparr>,
         \<lparr>file_name = ''b.txt'', file_type = ''text/plain''\<rparr>,
         \<lparr>file_name = ''c.txt'', file_type = ''text/plain''\<rparr>]"
proof -
  have v: "set ((\<lambda>path n. [0..<n]) path n) = {0..<n}" for path :: "nat list" and n
    by simp
  have v': "set ((\<lambda>path n. rev [0..<n]) path n) = {0..<n}" for path :: "nat list" and n
    by simp
  have run: "scanFilesIn (\<lambda>path n. [0..<n]) codeUnitCompare
     [Some (FileEntry ''b.txt'' (Some ''text/plain'')),
      Some (DirectoryEntry ''d'' [Some [FileEntry ''c.txt'' (Some ''text/plain''),
                                        FileEntry ''a.txt'' (Some ''text/plain'')]])]
     None
   = Some (Inr [\<lparr>file_name = ''a.txt'', file_type = ''text/plain''\<rparr>,
                \<lparr>file_name = ''b.txt'', file_type = ''text/plain''\<rparr>,
                \<lparr>file_name = ''c.txt'', file_type = ''text/plain''\<rparr>])"
    by (simp add: scanFilesIn_scanFiles scan_defs)
  from scanFiles_sorted_any_completion
         [of "\<lambda>path n. [0..<n]" "\<lambda>path n. rev [0..<n]" codeUnitCompare,
          OF v v' codeUnitCompare_total codeUnitCompare_trans run]
    run
  show ?thesis by simp
qed

subsection \<open>Only the first batch of a directory is read\<close>

text \<open>
  C3, as claimed: the children of a directory are enumerated by calling the host's
  paginated enumeration until it reports no more entries, so that every matching file of
  a large directory is in the output.  The source calls \<open>readEntries\<close> once per directory:
  of a directory that the host delivers in two batches, the file in the second batch is
  not in the output.
\<close>

theorem scanFiles_second_batch_counterexample:
  "scanFiles codeUnitCompare
     [Some (DirectoryEntry ''d'' [Some [FileEntry ''a.png'' (Some ''image/png'')],
                                  Some [FileEntry ''b.png'' (Some ''image/png'')]])]
     None
   = Some (Inr [\<lparr>file_name = ''a.png'', file_type = ''image/png''\<rparr>])
   \<and> \<lparr>file_name = ''b.png'', file_type = ''image/png''\<rparr>
       \<notin> set [\<lparr>file_name = ''a.png'', file_type = ''image/png''\<rparr>]"
  by (simp add: scan_defs)

text \<open>
  C3, amended: for every directory entry, \<open>scanFiles\<close> calls the host's enumeration once
  and goes on with the entries of that first batch only.  Whenever the scan returns a
  list, the list holds exactly the files reached through first batches that are readable,
  accepted and not hidden, sorted by name; a file of a later batch is not in it, and a
  directory entry is never in it.
\<close>

theorem scanFiles_first_batches:
  assumes "scanFiles localeCompare items accept = Some (Inr files)"
  shows "files = sortBy (\<lambda>a b. localeCompare (file_name a) (file_name b))
                   (concat (map (firstBatchFiles (fileTypesOf accept)) (entriesOf items)))"
  using assms by (rule scanFiles_Inr)

theorem scanFiles_first_batches_witness:
  "scanFiles codeUnitCompare
     [Some (DirectoryEntry ''d'' [Some [FileEntry ''a.png'' (Some ''image/png'')],
                                  Some [FileEntry ''b.png'' (Some ''image/png'')]])]
     None
   = Some (Inr [\<lparr>file_name = ''a.png'', file_type = ''image/png''\<rparr>])
   \<and> [\<lparr>file_name = ''a.png'', file_type = ''image/png''\<rparr>]
     = sortBy (\<lambda>a b. codeUnitCompare (file_name a) (file_name b))
         (concat (map (firstBatchFiles (fileTypesOf None))
            (entriesOf
               [Some (DirectoryEntry ''d''
                        [Some [FileEntry ''a.png'' (Some ''image/png'')],
                         Some [FileEntry ''b.png'' (Some ''image/png'')]])])))
   \<and> firstBatchFiles (fileTypesOf None)
         (DirectoryEntry ''d'' [Some [FileEntry ''a.png'' (Some ''image/png'')],
                                Some [FileEntry ''b.png'' (Some ''image/png'')]])
     = [\<lparr>file_name = ''a.png'', file_type = ''image/png''\<rparr>]"
proof -
  have run: "scanFiles codeUnitCompare
     [Some (DirectoryEntry ''d'' [Some [FileEntry ''a.png'' (Some ''image/png'')],
                                  Some [FileEntry ''b.png'' (Some ''image/png'')]])]
     None
   = Some (Inr [\<lparr>file_name = ''a.png'', file_type = ''image/png''\<rparr>])"
    by (simp add: scan_defs)
  have first: "firstBatchFiles (fileTypesOf None)
         (DirectoryEntry ''d'' [Some [FileEntry ''a.png'' (Some ''image/png'')],
                                Some [FileEntry ''b.png'' (Some ''image/png'')]])
     = [\<lparr>file_name = ''a.png'', file_type = ''image/png''\<rparr>]"
    by (simp add: scan_defs)
  from scanFiles_first_batches [OF run] run first show ?thesis by simp
qed

end
